theory Spec2Isabelle
  imports Complex_Main "HOL-Library.Word" "HOL-Library.Log_Nat" "HOL-Library.Code_Target_Numeral"
begin

unbundle bit_operations_syntax

section \<open>Python-level errors\<close>

datatype error = OverflowError | IndexError | ValueError

section \<open>FixedPointQ16\_16\<close>

text \<open>
  The conversions are stated on reals: \<open>to_float\<close> divides an integer by
  \<open>2 ^ 16\<close>, which is exact in a double for every integer below \<open>2 ^ 53\<close> in
  magnitude, and \<open>to_fixed\<close> scales by \<open>2 ^ 16\<close>, which is exact too.
\<close>

text \<open>\<open>np.round\<close>: round to the nearest integer, ties to the even neighbour.\<close>

definition np_round :: "real \<Rightarrow> int" where
  "np_round x =
     (let f = \<lfloor>x\<rfloor>; d = x - of_int f
      in if d < 1 / 2 then f
         else if 1 / 2 < d then f + 1
         else if even f then f else f + 1)"

definition to_fixed :: "real \<Rightarrow> int" where
  "to_fixed v = np_round (v * of_int (push_bit 16 1))"

definition to_float :: "int \<Rightarrow> real" where
  "to_float v =
     (let v' = (if v AND 0x80000000 \<noteq> 0 then v - 0x100000000 else v)
      in of_int v' / of_int (push_bit 16 1))"

text \<open>
  \<open>np.int64(a)\<close> raises \<open>OverflowError\<close> for a Python int outside the 64-bit signed
  range; the product of two \<open>np.int64\<close> wraps; \<open>>>\<close> on \<open>np.int64\<close> is the
  arithmetic shift; \<open>np.int32\<close> of an \<open>np.int64\<close> keeps the low 32 bits.
\<close>

definition int64_range :: "int \<Rightarrow> bool" where
  "int64_range k \<longleftrightarrow> - (2 ^ 63) \<le> k \<and> k < 2 ^ 63"

definition mult :: "int \<Rightarrow> int \<Rightarrow> error + int" where
  "mult a b =
     (if \<not> int64_range a \<or> \<not> int64_range b then Inl OverflowError
      else
        let a64 = (word_of_int a :: 64 word);
            b64 = (word_of_int b :: 64 word);
            prod = signed_drop_bit 16 (a64 * b64)
        in Inr (sint (ucast (prod AND 0xFFFFFFFF) :: 32 word)))"

section \<open>NeuralCompressorReference\<close>

subsection \<open>Constants set by the constructor\<close>

definition b_coeff :: "int list" where
  "b_coeff = [0x00000D6B, 0x00000000, - 0x0000A5A6, 0x00000000, 0x00000D6B]"

definition a_coeff :: "int list" where
  "a_coeff = [0x00010000, - 0x000270A4, 0x0002B852, - 0x0001B333, 0x00003D71]"

definition b_float :: "real list" where
  "b_float = map to_float b_coeff"

definition a_float :: "real list" where
  "a_float = map to_float a_coeff"

definition spike_threshold :: real where
  "spike_threshold = to_float 0x00050000"

definition window_size :: nat where
  "window_size = 32"

definition refractory_period :: nat where
  "refractory_period = 8"

definition rle_threshold :: real where
  "rle_threshold = to_float 0x00001999"

definition max_run_length :: nat where
  "max_run_length = 255"

subsection \<open>\<open>detect_spikes\<close>\<close>

text \<open>
  The loop body at index \<open>i\<close>, on the pair of the flag array and the refractory
  counter. \<open>continue\<close> leaves the flags alone.
\<close>

definition detect_step :: "real list \<Rightarrow> nat \<Rightarrow> bool list \<times> nat \<Rightarrow> bool list \<times> nat" where
  "detect_step data i st =
     (case st of (flags, refractory_counter) \<Rightarrow>
        if refractory_counter > 0 then (flags, refractory_counter - 1)
        else if \<bar>data ! i\<bar> > spike_threshold then (flags[i := True], refractory_period)
        else (flags, refractory_counter))"

definition detect_loop :: "real list \<Rightarrow> bool list \<times> nat" where
  "detect_loop data =
     fold (detect_step data) [window_size..<length data] (replicate (length data) False, 0)"

definition detect_spikes :: "real list \<Rightarrow> bool list" where
  "detect_spikes data = fst (detect_loop data)"

subsection \<open>\<open>compress_signal\<close>\<close>

text \<open>
  An element of the list \<open>compressed\<close> is a sample or a delta (a float), or the
  tuple \<open>(run_count, run_value)\<close>. The list \<open>packet_types\<close> runs in parallel:
  0 delta, 1 run length, 2 spike, 3 literal.
\<close>

datatype entry = Scalar real | Tuple nat real









section \<open>The pipeline on doubles\<close>

subsection \<open>Double-precision floats\<close>

text \<open>
  The filter and everything after it in the pipeline compute on binary64 floats. A
  double is a finite value, an infinity or NaN; the finite values are the reals that
  binary64 represents. The sign of zero is not kept: the pipeline only adds,
  subtracts, multiplies and compares.
\<close>

datatype double = Finite real | PInf | NInf | NaN

text \<open>
  \<open>binade x\<close> is the exponent \<open>e\<close> with \<open>2 ^ e \<le> \<bar>x\<bar> < 2 ^ (e + 1)\<close> for
  \<open>x \<noteq> 0\<close> (lemma \<open>binade_bounds\<close>), computed from the bit length of the integer
  part of \<open>\<bar>x\<bar>\<close> or of its inverse.
\<close>

definition binade :: "real \<Rightarrow> int" where
  "binade x = (if 1 \<le> \<bar>x\<bar> then bitlen \<lfloor>\<bar>x\<bar>\<rfloor> - 1 else - bitlen (\<lceil>1 / \<bar>x\<bar>\<rceil> - 1))"

text \<open>
  Rounding to the nearest double, ties to the even significand: doubles near \<open>x\<close> are
  spaced \<open>2 ^ (binade x - 52)\<close> apart, and never less than \<open>2 ^ - 1074\<close>; a rounded
  magnitude of \<open>2 ^ 1024\<close> or more is an infinity.
\<close>

definition round_double :: "real \<Rightarrow> double" where
  "round_double x =
     (if x = 0 then Finite 0
      else
        let u = max (binade x - 52) (- 1074);
            r = of_int (np_round (x / 2 powi u)) * 2 powi u
        in if 2 ^ 1024 \<le> \<bar>r\<bar> then (if 0 < x then PInf else NInf) else Finite r)"

fun dadd :: "double \<Rightarrow> double \<Rightarrow> double" where
  "dadd (Finite x) (Finite y) = round_double (x + y)"
| "dadd NaN y = NaN"
| "dadd x NaN = NaN"
| "dadd PInf NInf = NaN"
| "dadd NInf PInf = NaN"
| "dadd PInf y = PInf"
| "dadd x PInf = PInf"
| "dadd NInf y = NInf"
| "dadd x NInf = NInf"

fun dsub :: "double \<Rightarrow> double \<Rightarrow> double" where
  "dsub (Finite x) (Finite y) = round_double (x - y)"
| "dsub NaN y = NaN"
| "dsub x NaN = NaN"
| "dsub PInf PInf = NaN"
| "dsub NInf NInf = NaN"
| "dsub PInf y = PInf"
| "dsub x PInf = NInf"
| "dsub NInf y = NInf"
| "dsub x NInf = PInf"

text \<open>The sign of a product with an infinity: \<open>None\<close> where the other factor is zero.\<close>

fun sign_of :: "double \<Rightarrow> bool option" where
  "sign_of (Finite x) = (if x = 0 then None else Some (0 < x))"
| "sign_of PInf = Some True"
| "sign_of NInf = Some False"
| "sign_of NaN = None"

fun dmul :: "double \<Rightarrow> double \<Rightarrow> double" where
  "dmul (Finite x) (Finite y) = round_double (x * y)"
| "dmul NaN y = NaN"
| "dmul x NaN = NaN"
| "dmul x y =
     (case (sign_of x, sign_of y) of
        (Some p, Some q) \<Rightarrow> if p = q then PInf else NInf
      | _ \<Rightarrow> NaN)"

text \<open>
  The two comparisons of the pipeline, \<open>abs(x) > t\<close> and \<open>abs(x) < t\<close> against a
  finite threshold: both are false on NaN.
\<close>

fun abs_above :: "double \<Rightarrow> real \<Rightarrow> bool" where
  "abs_above (Finite x) t = (\<bar>x\<bar> > t)"
| "abs_above PInf t = True"
| "abs_above NInf t = True"
| "abs_above NaN t = False"

fun abs_below :: "double \<Rightarrow> real \<Rightarrow> bool" where
  "abs_below (Finite x) t = (\<bar>x\<bar> < t)"
| "abs_below x t = False"

subsection \<open>\<open>filter_signal\<close>\<close>

text \<open>
  \<open>filter_signal\<close> is one call of \<open>scipy.signal.lfilter\<close>, a library function
  that is not part of the repository, on \<open>b_float\<close>, \<open>a_float\<close> and the data. What
  follows is the library's algorithm for two lists of five coefficients, as its
  documentation and source give it: both lists are divided by \<open>a[0]\<close>, and the
  transposed direct form II runs on a delay line \<open>z\<close> of four cells, all zero at the
  start, with \<open>y = z[0] + b[0] * x\<close>, then
  \<open>z[n] := z[n+1] + x * b[n+1] - y * a[n+1]\<close> for the first three cells and
  \<open>z[3] := x * b[4] - y * a[4]\<close>, every operation rounded to a double. Where the
  theorems below give a value of the filter, every operation on the way to it is
  exact, so the value does not depend on the order or the fusing of operations.
\<close>

definition normalise :: "real list \<Rightarrow> real \<Rightarrow> double list" where
  "normalise cs a0 = map (\<lambda>c. round_double (c / a0)) cs"

definition df2t_delay :: "double list \<Rightarrow> double list \<Rightarrow> double list \<Rightarrow> double \<Rightarrow> double \<Rightarrow> double list" where
  "df2t_delay b a z x y =
     map (\<lambda>n. if Suc n < length z
               then dsub (dadd (z ! Suc n) (dmul x (b ! Suc n))) (dmul y (a ! Suc n))
               else dsub (dmul x (b ! Suc n)) (dmul y (a ! Suc n)))
       [0..<length z]"

fun lfilter_loop :: "double list \<Rightarrow> double list \<Rightarrow> double list \<Rightarrow> double list \<Rightarrow> double list" where
  "lfilter_loop b a z [] = []"
| "lfilter_loop b a z (x # xs) =
     (let y = dadd (z ! 0) (dmul (b ! 0) x)
      in y # lfilter_loop b a (df2t_delay b a z x y) xs)"

definition filter_signal :: "double list \<Rightarrow> double list" where
  "filter_signal data =
     (let b = normalise b_float (a_float ! 0);
          a = normalise a_float (a_float ! 0)
      in lfilter_loop b a (replicate (length a - 1) (Finite 0)) data)"

subsection \<open>The detector and the encoder on doubles\<close>

text \<open>
  \<open>detect_spikes\<close> and \<open>compress_signal\<close> above take finite samples, as reals. In
  the pipeline they receive what the filter returns, which can hold infinities and
  NaN, and the encoder's subtraction is rounded. The two functions are therefore
  stated once more on doubles, line for line.
\<close>

definition detect_step64 :: "double list \<Rightarrow> nat \<Rightarrow> bool list \<times> nat \<Rightarrow> bool list \<times> nat" where
  "detect_step64 data i st =
     (case st of (flags, refractory_counter) \<Rightarrow>
        if refractory_counter > 0 then (flags, refractory_counter - 1)
        else if abs_above (data ! i) spike_threshold then (flags[i := True], refractory_period)
        else (flags, refractory_counter))"

definition detect_loop64 :: "double list \<Rightarrow> bool list \<times> nat" where
  "detect_loop64 data =
     fold (detect_step64 data) [window_size..<length data] (replicate (length data) False, 0)"

definition detect_spikes64 :: "double list \<Rightarrow> bool list" where
  "detect_spikes64 data = fst (detect_loop64 data)"

datatype entry64 = Scalar64 double | Tuple64 nat double

record enc_state64 =
  compressed64 :: "entry64 list"
  packet_types64 :: "nat list"
  prev_value64 :: double
  run_count64 :: nat
  run_value64 :: double
  in_run64 :: bool

definition enc_init64 :: enc_state64 where
  "enc_init64 = \<lparr>compressed64 = [], packet_types64 = [], prev_value64 = Finite 0,
     run_count64 = 0, run_value64 = Finite 0, in_run64 = False\<rparr>"

definition emit_run_spike64 :: "enc_state64 \<Rightarrow> enc_state64" where
  "emit_run_spike64 s =
     s\<lparr>compressed64 := compressed64 s @ [Tuple64 (run_count64 s) (run_value64 s)],
       packet_types64 := packet_types64 s @ [1],
       in_run64 := False, run_count64 := 0\<rparr>"

definition emit_run64 :: "enc_state64 \<Rightarrow> enc_state64" where
  "emit_run64 s =
     s\<lparr>compressed64 := compressed64 s @ [Tuple64 (run_count64 s) (run_value64 s)],
       packet_types64 := packet_types64 s @ [1],
       prev_value64 := run_value64 s,
       in_run64 := False, run_count64 := 0\<rparr>"

definition compress_step64 :: "bool list \<Rightarrow> enc_state64 \<Rightarrow> nat \<times> double \<Rightarrow> error + enc_state64" where
  "compress_step64 flags s p =
     (case p of (i, val) \<Rightarrow>
        if \<not> i < length flags then Inl IndexError
        else if flags ! i then
          let s1 = (if in_run64 s \<and> run_count64 s > 0 then emit_run_spike64 s else s)
          in Inr (s1\<lparr>compressed64 := compressed64 s1 @ [Scalar64 val],
                     packet_types64 := packet_types64 s1 @ [2],
                     prev_value64 := val\<rparr>)
        else
          let delta = dsub val (prev_value64 s)
          in if abs_below delta rle_threshold then
               let s1 = (if \<not> in_run64 s
                         then s\<lparr>run_value64 := val, run_count64 := 1, in_run64 := True\<rparr>
                         else s\<lparr>run_count64 := run_count64 s + 1\<rparr>)
               in if run_count64 s1 \<ge> max_run_length then Inr (emit_run64 s1) else Inr s1
             else
               let s1 = (if in_run64 s \<and> run_count64 s > 0 then emit_run64 s else s)
               in Inr (s1\<lparr>compressed64 := compressed64 s1 @ [Scalar64 delta],
                          packet_types64 := packet_types64 s1 @ [0],
                          prev_value64 := val\<rparr>))"

fun compress_loop64 :: "bool list \<Rightarrow> enc_state64 \<Rightarrow> (nat \<times> double) list \<Rightarrow> error + enc_state64" where
  "compress_loop64 flags s [] = Inr s"
| "compress_loop64 flags s (p # ps) =
     (case compress_step64 flags s p of
        Inl e \<Rightarrow> Inl e
      | Inr s' \<Rightarrow> compress_loop64 flags s' ps)"

definition final_run64 :: "enc_state64 \<Rightarrow> enc_state64" where
  "final_run64 s =
     (if in_run64 s \<and> run_count64 s > 0
      then s\<lparr>compressed64 := compressed64 s @ [Tuple64 (run_count64 s) (run_value64 s)],
             packet_types64 := packet_types64 s @ [1]\<rparr>
      else s)"

definition compress_signal64 :: "double list \<Rightarrow> bool list \<Rightarrow> error + entry64 list \<times> nat list" where
  "compress_signal64 data flags =
     (case compress_loop64 flags enc_init64 (enumerate 0 data) of
        Inl e \<Rightarrow> Inl e
      | Inr s \<Rightarrow> Inr (compressed64 (final_run64 s), packet_types64 (final_run64 s)))"

subsection \<open>\<open>process\<close>\<close>

text \<open>
  The ratio is a double: the quotient of the two lengths, rounded, times 100, rounded.
\<close>

record stats =
  input_samples :: nat
  output_packets :: nat
  compression_ratio :: double
  spike_count :: nat

record result =
  res_filtered :: "double list"
  res_spikes :: "bool list"
  res_compressed :: "entry64 list"
  res_packet_types :: "nat list"
  res_stats :: stats

definition process :: "double list \<Rightarrow> error + result" where
  "process input_data =
     (let filtered = filter_signal input_data;
          flags = detect_spikes64 filtered
      in case compress_signal64 filtered flags of
           Inl e \<Rightarrow> Inl e
         | Inr (packets, ptypes) \<Rightarrow>
             Inr \<lparr>res_filtered = filtered, res_spikes = flags,
                  res_compressed = packets, res_packet_types = ptypes,
                  res_stats = \<lparr>input_samples = length input_data,
                    output_packets = length packets,
                    compression_ratio =
                      (if length input_data > 0
                       then dmul (round_double (real (length packets) / real (length input_data)))
                              (Finite 100)
                       else Finite 0),
                    spike_count = length (filter id flags)\<rparr>\<rparr>)"

section \<open>The sample file\<close>

text \<open>
  A file is the text it holds. Characters are those of the decoded text with a code
  point below 256.
\<close>

subsection \<open>\<open>write_mem_file\<close>\<close>

definition hex_digit_upper :: "nat \<Rightarrow> char" where
  "hex_digit_upper d = ''0123456789ABCDEF'' ! d"

fun hex_upper :: "nat \<Rightarrow> string" where
  "hex_upper n =
     (if n < 16 then [hex_digit_upper n]
      else hex_upper (n div 16) @ [hex_digit_upper (n mod 16)])"

declare hex_upper.simps [simp del]

text \<open>
  The format specification \<open>08X\<close>: upper-case hexadecimal, filled with zeros after
  the sign up to a width of 8.
\<close>

definition format_08X :: "int \<Rightarrow> string" where
  "format_08X k =
     (if k < 0
      then CHR ''-'' # replicate (7 - length (hex_upper (nat (- k)))) CHR ''0'' @ hex_upper (nat (- k))
      else replicate (8 - length (hex_upper (nat k))) CHR ''0'' @ hex_upper (nat k))"

text \<open>The text written for the samples, one \<open>f.write\<close> per sample.\<close>

definition write_mem_file :: "int list \<Rightarrow> string" where
  "write_mem_file data =
     concat (map (\<lambda>sample. format_08X (sample AND 0xFFFFFFFF) @ [CHR 0x0A]) data)"

subsection \<open>\<open>load_eeg_mem_file\<close>\<close>

text \<open>
  A file opened for reading in text mode turns \<open>\r\n\<close> and \<open>\r\<close> into \<open>\n\<close>;
  iterating over it yields the lines, each with its newline, the last one possibly
  without.
\<close>

fun universal_newlines :: "string \<Rightarrow> string" where
  "universal_newlines [] = []"
| "universal_newlines [c] = (if c = CHR 0x0D then [CHR 0x0A] else [c])"
| "universal_newlines (c # d # cs) =
     (if c = CHR 0x0D
      then (if d = CHR 0x0A then CHR 0x0A # universal_newlines cs
            else CHR 0x0A # universal_newlines (d # cs))
      else c # universal_newlines (d # cs))"

fun lines_from :: "string \<Rightarrow> string \<Rightarrow> string list" where
  "lines_from cur [] = (if cur = [] then [] else [cur])"
| "lines_from cur (c # cs) =
     (if c = CHR 0x0A then (cur @ [c]) # lines_from [] cs else lines_from (cur @ [c]) cs)"

definition file_lines :: "string \<Rightarrow> string list" where
  "file_lines text = lines_from [] (universal_newlines text)"

text \<open>\<open>str.strip()\<close> removes the white space at both ends.\<close>

definition is_space :: "char \<Rightarrow> bool" where
  "is_space c \<longleftrightarrow>
     (let n = of_char c :: nat
      in (9 \<le> n \<and> n \<le> 13) \<or> (28 \<le> n \<and> n \<le> 32) \<or> n = 0x85 \<or> n = 0xA0)"

definition strip :: "string \<Rightarrow> string" where
  "strip s = rev (dropWhile is_space (rev (dropWhile is_space s)))"

text \<open>
  \<open>int(line, 16)\<close> on a stripped line: an optional sign, an optional \<open>0x\<close> or
  \<open>0X\<close>, then hexadecimal digits of either case, where single underscores may
  stand between digits and after the prefix. Anything else raises \<open>ValueError\<close>.
\<close>

definition hex_value :: "char \<Rightarrow> nat option" where
  "hex_value c =
     (let n = of_char c :: nat
      in if 48 \<le> n \<and> n \<le> 57 then Some (n - 48)
         else if 65 \<le> n \<and> n \<le> 70 then Some (n - 55)
         else if 97 \<le> n \<and> n \<le> 102 then Some (n - 87)
         else None)"

fun hex_digits :: "int \<Rightarrow> bool \<Rightarrow> string \<Rightarrow> error + int" where
  "hex_digits acc after_underscore [] = (if after_underscore then Inl ValueError else Inr acc)"
| "hex_digits acc after_underscore (c # cs) =
     (if c = CHR ''_''
      then (if after_underscore then Inl ValueError else hex_digits acc True cs)
      else case hex_value c of
             None \<Rightarrow> Inl ValueError
           | Some d \<Rightarrow> hex_digits (16 * acc + int d) False cs)"

definition skip_prefix :: "string \<Rightarrow> string" where
  "skip_prefix s =
     (case s of
        c # d # rest \<Rightarrow>
          if c = CHR ''0'' \<and> (d = CHR ''x'' \<or> d = CHR ''X'')
          then (case rest of [] \<Rightarrow> rest | u # rest' \<Rightarrow> if u = CHR ''_'' then rest' else rest)
          else s
      | _ \<Rightarrow> s)"

definition unsigned_int16 :: "string \<Rightarrow> error + int" where
  "unsigned_int16 s =
     (case skip_prefix s of
        [] \<Rightarrow> Inl ValueError
      | c # cs \<Rightarrow> if c = CHR ''_'' then Inl ValueError else hex_digits 0 False (c # cs))"

definition int16 :: "string \<Rightarrow> error + int" where
  "int16 s =
     (case s of
        [] \<Rightarrow> Inl ValueError
      | c # cs \<Rightarrow>
          if c = CHR ''+'' then unsigned_int16 cs
          else if c = CHR ''-'' then
            (case unsigned_int16 cs of Inl e \<Rightarrow> Inl e | Inr k \<Rightarrow> Inr (- k))
          else unsigned_int16 s)"

text \<open>The loop over the lines, which fills the list \<open>data\<close>.\<close>

fun load_lines :: "int list \<Rightarrow> string list \<Rightarrow> error + int list" where
  "load_lines data [] = Inr data"
| "load_lines data (line # rest) =
     (let line' = strip line
      in if line' \<noteq> [] then
           (case int16 line' of
              Inl e \<Rightarrow> Inl e
            | Inr val \<Rightarrow>
                let val' = (if val AND 0x80000000 \<noteq> 0 then val - 0x100000000 else val)
                in load_lines (data @ [val']) rest)
         else load_lines data rest)"

definition load_eeg_mem_data :: "string \<Rightarrow> error + int list" where
  "load_eeg_mem_data text = load_lines [] (file_lines text)"

definition load_eeg_mem_file :: "string \<Rightarrow> error + real list" where
  "load_eeg_mem_file text =
     (case load_eeg_mem_data text of
        Inl e \<Rightarrow> Inl e
      | Inr data \<Rightarrow> Inr (map to_float data))"

section \<open>Derived views of the loops\<close>

text \<open>
  The detector loop from index \<open>window_size\<close> on, as a recursion over the samples
  that are left, with the refractory counter as argument. Lemma
  \<open>detect_spikes_scan\<close> relates it to \<open>detect_spikes\<close>.
\<close>

fun refractory_scan :: "nat \<Rightarrow> real list \<Rightarrow> bool list" where
  "refractory_scan rc [] = []"
| "refractory_scan rc (x # xs) =
     (if rc > 0 then False # refractory_scan (rc - 1) xs
      else if \<bar>x\<bar> > spike_threshold then True # refractory_scan refractory_period xs
      else False # refractory_scan rc xs)"





text \<open>The characters that \<open>08X\<close> can produce for a non-negative number.\<close>

definition upper_hex_chars :: "char set" where
  "upper_hex_chars = set ''0123456789ABCDEF''"

text \<open>
  The number of samples that a list of packets stands for: the count of a run-length
  tuple, one for a spike or a delta.
\<close>

fun covered :: "entry \<Rightarrow> nat" where
  "covered (Scalar v) = 1"
| "covered (Tuple c v) = c"

definition samples_covered :: "entry list \<Rightarrow> nat" where
  "samples_covered packets = sum_list (map covered packets)"

section \<open>The filter as the specification words it\<close>





section \<open>Fixed-point primitives: properties\<close>

subsection \<open>Multiplication\<close>

lemma int32_product_bound:
  fixes a b :: int
  assumes "- (2 ^ 31) \<le> a" "a < 2 ^ 31" "- (2 ^ 31) \<le> b" "b < 2 ^ 31"
  shows "- (2 ^ 62) \<le> a * b \<and> a * b \<le> 2 ^ 62"
proof -
  have "\<bar>a\<bar> \<le> 2 ^ 31" "\<bar>b\<bar> \<le> 2 ^ 31" using assms by auto
  then have "\<bar>a\<bar> * \<bar>b\<bar> \<le> 2 ^ 31 * 2 ^ 31"
    by (intro mult_mono) auto
  then have "\<bar>a * b\<bar> \<le> 2 ^ 62" by (simp add: abs_mult)
  then show ?thesis by auto
qed

lemma low32_of_int64:
  fixes s :: "64 word"
  shows "(ucast (s AND 0xFFFFFFFF) :: 32 word) = word_of_int (sint s)"
proof -
  have m: "(0xFFFFFFFF :: 64 word) = mask 32" by (simp add: mask_eq_exp_minus_1)
  have "(ucast (s AND mask 32) :: 32 word) = ucast s"
    by (rule bit_word_eqI) (simp add: bit_simps)
  also have "\<dots> = word_of_int (uint s)" by (simp only: ucast_eq)
  also have "\<dots> = word_of_int (take_bit 64 (sint s))"
    by (simp add: uint_sint)
  also have "\<dots> = word_of_int (sint s)"
    unfolding word_of_int_eq_iff by simp
  finally show ?thesis by (simp only: m)
qed

text \<open>
  Claim C2. For 32-bit signed operands, \<open>mult a b\<close> is the two's-complement reading of
  the low 32 bits of the exact product shifted right arithmetically by 16 (the floor
  of the product over \<open>2 ^ 16\<close>): the result wraps, it is not clamped.
\<close>

theorem mult_wraps:
  assumes "- (2 ^ 31) \<le> a" "a < 2 ^ 31" "- (2 ^ 31) \<le> b" "b < 2 ^ 31"
  shows "mult a b = Inr ((a * b div 2 ^ 16 + 2 ^ 31) mod 2 ^ 32 - 2 ^ 31)"
proof -
  have ra: "int64_range a" and rb: "int64_range b"
    using assms by (simp_all add: int64_range_def)
  have pb: "- (2 ^ 63) \<le> a * b" "a * b < 2 ^ 63"
    using int32_product_bound [OF assms] by simp_all
  have s: "sint (word_of_int (a * b) :: 64 word) = a * b"
    unfolding sint_sbintrunc' using pb by (intro signed_take_bit_int_eq_self) simp_all
  have d: "sint (signed_drop_bit 16 (word_of_int a * word_of_int b :: 64 word)) = a * b div 2 ^ 16"
    unfolding sint_signed_drop_bit_eq wi_hom_mult s by (simp add: drop_bit_eq_div)
  have "sint (ucast (signed_drop_bit 16 (word_of_int a * word_of_int b :: 64 word) AND 0xFFFFFFFF) :: 32 word)
        = sint (word_of_int (a * b div 2 ^ 16) :: 32 word)"
    by (simp only: low32_of_int64 d)
  also have "\<dots> = (a * b div 2 ^ 16 + 2 ^ 31) mod 2 ^ 32 - 2 ^ 31"
    by (simp add: int_word_sint)
  finally have r: "sint (ucast (signed_drop_bit 16 (word_of_int a * word_of_int b :: 64 word) AND 0xFFFFFFFF) :: 32 word)
        = (a * b div 2 ^ 16 + 2 ^ 31) mod 2 ^ 32 - 2 ^ 31" .
  show ?thesis
    unfolding mult_def Let_def r using ra rb by simp
qed

text \<open>
  At the largest operands the shifted product \<open>2 ^ 46 - 2 ^ 16\<close> does not fit 32 bits;
  the result is \<open>- 65536\<close>, not the largest 32-bit value.
\<close>

theorem mult_wraps_witness:
  "- (2 ^ 31) \<le> (0x7FFFFFFF :: int) \<and> (0x7FFFFFFF :: int) < 2 ^ 31
   \<and> mult 0x7FFFFFFF 0x7FFFFFFF = Inr (- 65536)
   \<and> (0x7FFFFFFF * 0x7FFFFFFF :: int) div 2 ^ 16 = 2 ^ 46 - 2 ^ 16"
  using mult_wraps [of "0x7FFFFFFF" "0x7FFFFFFF"] by simp

subsection \<open>Conversion\<close>

lemma np_round_of_int: "np_round (of_int k) = k"
  by (simp add: np_round_def)

lemma to_fixed_scaled: "to_fixed (of_int k / of_int (push_bit 16 1)) = k"
  by (simp add: to_fixed_def np_round_of_int)

lemma sign_bit_of_negative:
  fixes v :: int
  assumes "- (2 ^ 31) \<le> v" "v < 0"
  shows "v AND 0x80000000 \<noteq> 0"
proof -
  have "v div 2 ^ 31 = - 1"
    using assms by (simp add: div_pos_neg_trivial zdiv_eq_0_iff)
  then have "bit v 31" by (simp add: bit_int_def)
  moreover have "(0x80000000 :: int) = 2 ^ 31" by simp
  ultimately show ?thesis by (simp only: and_exp_eq_0_iff_not_bit) simp
qed

lemma to_float_negative:
  assumes "- (2 ^ 31) \<le> v" "v < 0"
  shows "to_float v = (of_int v - 2 ^ 32) / 65536"
  using sign_bit_of_negative [OF assms] by (simp add: to_float_def)

lemma to_fixed_to_float:
  "to_fixed (to_float v) = (if v AND 0x80000000 \<noteq> 0 then v - 0x100000000 else v)"
  unfolding to_float_def Let_def by (simp only: to_fixed_scaled)

text \<open>
  Claim C10. A negative raw value \<open>v\<close> of the 32-bit range, passed as a signed integer,
  has its sign bit set in \<open>v & 0x80000000\<close>, so \<open>to_float v\<close> is
  \<open>(v - 2 ^ 32) / 65536\<close> and not \<open>v / 65536\<close>; the three negative coefficients of
  the model become floats below \<open>- 65536\<close> in \<open>b_float\<close> and \<open>a_float\<close>.
\<close>

theorem to_float_signed_negative:
  "(- (2 ^ 31) \<le> v \<and> v < 0 \<longrightarrow>
      to_float v = (of_int v - 2 ^ 32) / 65536 \<and> to_float v \<noteq> of_int v / 65536)
   \<and> b_float ! 2 < - 65536 \<and> a_float ! 1 < - 65536 \<and> a_float ! 3 < - 65536"
proof -
  have "b_float ! 2 < - 65536" "a_float ! 1 < - 65536" "a_float ! 3 < - 65536"
    by (simp_all add: b_float_def b_coeff_def a_float_def a_coeff_def to_float_def)
  then show ?thesis
    by (auto simp add: to_float_negative)
qed

theorem to_float_signed_negative_witness:
  "- (2 ^ 31) \<le> (- 0x000270A4 :: int) \<and> (- 0x000270A4 :: int) < 0
   \<and> to_float (- 0x000270A4) = - 4295127204 / 65536
   \<and> to_float (- 0x000270A4) \<noteq> - 159908 / 65536"
  using to_float_signed_negative [of "- 0x000270A4"] by simp

section \<open>Spike detector: properties\<close>

lemma length_refractory_scan [simp]: "length (refractory_scan rc xs) = length xs"
  by (induction xs arbitrary: rc) auto

lemma detect_fold_scan:
  assumes "length flags = length data" "i \<le> length data"
    and "\<forall>k. i \<le> k \<and> k < length data \<longrightarrow> \<not> flags ! k"
  shows "fst (fold (detect_step data) [i..<length data] (flags, rc))
         = take i flags @ refractory_scan rc (drop i data)"
  using assms
proof (induction "length data - i" arbitrary: i flags rc)
  case 0
  then show ?case by simp
next
  case (Suc d)
  then have lt: "i < length data" by simp
  obtain flags' rc' where st: "detect_step data i (flags, rc) = (flags', rc')"
    by (cases "detect_step data i (flags, rc)")
  have len': "length flags' = length data"
    using st Suc.prems(1) by (auto simp add: detect_step_def split: if_splits)
  have quiet': "\<forall>k. Suc i \<le> k \<and> k < length data \<longrightarrow> \<not> flags' ! k"
    using st Suc.prems(3) by (auto simp add: detect_step_def split: if_splits)
  have tk: "take i flags' = take i flags"
    using st by (auto simp add: detect_step_def split: if_splits)
  have d: "d = length data - Suc i" using Suc.hyps(2) by simp
  have ih: "fst (fold (detect_step data) [Suc i..<length data] (flags', rc'))
         = take (Suc i) flags' @ refractory_scan rc' (drop (Suc i) data)"
    using Suc.hyps(1) [OF d len' _ quiet'] lt by simp
  have hd: "flags' ! i # refractory_scan rc' (drop (Suc i) data)
            = refractory_scan rc (drop i data)"
    using st lt Suc.prems(1) Suc.prems(3)
    by (auto simp add: detect_step_def Cons_nth_drop_Suc [symmetric] split: if_splits)
  have "fst (fold (detect_step data) [i..<length data] (flags, rc))
        = fst (fold (detect_step data) [Suc i..<length data] (flags', rc'))"
    using lt st by (simp add: upt_conv_Cons)
  also have "\<dots> = take i flags' @ (flags' ! i # refractory_scan rc' (drop (Suc i) data))"
    using ih lt len' by (simp add: take_Suc_conv_app_nth)
  finally show ?case by (simp only: tk hd)
qed

lemma detect_spikes_scan:
  "detect_spikes data
   = replicate (min window_size (length data)) False @ refractory_scan 0 (drop window_size data)"
proof (cases "window_size \<le> length data")
  case True
  then show ?thesis
    unfolding detect_spikes_def detect_loop_def
    by (subst detect_fold_scan) (simp_all add: min_def)
next
  case False
  then show ?thesis
    by (simp add: detect_spikes_def detect_loop_def min_def)
qed




lemma length_detect_spikes: "length (detect_spikes data) = length data"
  by (simp add: detect_spikes_scan min_def)






section \<open>Encoder: properties\<close>





















lemma samples_covered_append [simp]:
  "samples_covered (ps @ qs) = samples_covered ps + samples_covered qs"
  by (simp add: samples_covered_def)

lemma samples_covered_Cons [simp]:
  "samples_covered (e # ps) = covered e + samples_covered ps" "samples_covered [] = 0"
  by (simp_all add: samples_covered_def)





section \<open>Sample file: properties\<close>

lemma hex_digit_upper_in:
  assumes "d < 16"
  shows "hex_digit_upper d \<in> upper_hex_chars"
proof -
  have "d \<in> {0, 1, 2, 3, 4, 5, 6, 7, 8, 9, 10, 11, 12, 13, 14, 15}"
    using assms by (simp only: insert_iff empty_iff) arith
  then show ?thesis
    by (auto simp add: hex_digit_upper_def upper_hex_chars_def)
qed

lemma hex_value_digit:
  assumes "d < 16"
  shows "hex_value (hex_digit_upper d) = Some d"
proof -
  have "d \<in> {0, 1, 2, 3, 4, 5, 6, 7, 8, 9, 10, 11, 12, 13, 14, 15}"
    using assms by (simp only: insert_iff empty_iff) arith
  then show ?thesis
    by (auto simp add: hex_value_def hex_digit_upper_def Let_def)
qed

lemma upper_hex_char_props:
  assumes "c \<in> upper_hex_chars"
  shows "\<not> is_space c" "c \<noteq> CHR ''_''" "c \<noteq> CHR ''+''" "c \<noteq> CHR ''-''"
    "c \<noteq> CHR ''x''" "c \<noteq> CHR ''X''" "c \<noteq> CHR 0x0A" "c \<noteq> CHR 0x0D"
  using assms by (auto simp add: upper_hex_chars_def is_space_def)

lemma hex_upper_chars: "set (hex_upper n) \<subseteq> upper_hex_chars"
proof (induction n rule: hex_upper.induct)
  case (1 n)
  show ?case
  proof (cases "n < 16")
    case True
    then show ?thesis by (simp add: hex_upper.simps [of n] hex_digit_upper_in)
  next
    case False
    then show ?thesis
      using 1 by (simp add: hex_upper.simps [of n] hex_digit_upper_in)
  qed
qed

lemma hex_upper_length: "n < 16 ^ k \<Longrightarrow> 0 < k \<Longrightarrow> length (hex_upper n) \<le> k"
proof (induction n arbitrary: k rule: hex_upper.induct)
  case (1 n)
  show ?case
  proof (cases "n < 16")
    case True
    then show ?thesis using "1.prems" by (simp add: hex_upper.simps [of n])
  next
    case False
    then obtain j where j: "k = Suc j" "0 < j"
      using "1.prems" by (cases k; cases "k - 1") auto
    then have "n div 16 < 16 ^ j"
      using "1.prems" by (simp add: less_mult_imp_div_less mult.commute)
    then have "length (hex_upper (n div 16)) \<le> j"
      using "1.IH" [OF False _ j(2)] by simp
    then show ?thesis using False j by (simp add: hex_upper.simps [of n])
  qed
qed

lemma hex_upper_nonempty: "hex_upper n \<noteq> []"
  by (simp add: hex_upper.simps [of n])

lemma hex_digits_hex_upper:
  "hex_digits acc u (hex_upper n @ rest)
   = hex_digits (acc * 16 ^ length (hex_upper n) + int n) False rest"
proof (induction n arbitrary: acc u rest rule: hex_upper.induct)
  case (1 n)
  have dig: "\<And>d a w r. d < 16 \<Longrightarrow>
      hex_digits a w (hex_digit_upper d # r) = hex_digits (16 * a + int d) False r"
    using upper_hex_char_props(2) [OF hex_digit_upper_in] by (simp add: hex_value_digit)
  show ?case
  proof (cases "n < 16")
    case True
    then show ?thesis by (simp add: hex_upper.simps [of n] dig mult.commute del: hex_digits.simps)
  next
    case False
    have "hex_digits acc u (hex_upper n @ rest)
          = hex_digits acc u (hex_upper (n div 16) @ hex_digit_upper (n mod 16) # rest)"
      using False by (simp add: hex_upper.simps [of n])
    also have "\<dots> = hex_digits (acc * 16 ^ length (hex_upper (n div 16)) + int (n div 16)) False
                        (hex_digit_upper (n mod 16) # rest)"
      using "1.IH" [OF False] by simp
    also have "\<dots> = hex_digits (16 * (acc * 16 ^ length (hex_upper (n div 16)) + int (n div 16))
                          + int (n mod 16)) False rest"
      by (simp add: dig del: hex_digits.simps)
    also have "16 * (acc * 16 ^ length (hex_upper (n div 16)) + int (n div 16)) + int (n mod 16)
               = acc * 16 ^ length (hex_upper n) + int n"
    proof -
      have "int n = 16 * int (n div 16) + int (n mod 16)"
        by (metis mult_div_mod_eq of_nat_add of_nat_mult of_nat_numeral)
      then show ?thesis
        using False by (simp add: hex_upper.simps [of n] algebra_simps)
    qed
    finally show ?thesis .
  qed
qed

lemma hex_digits_zeros:
  "rest \<noteq> [] \<Longrightarrow> hex_digits 0 u (replicate k CHR ''0'' @ rest) = hex_digits 0 (if k = 0 then u else False) rest"
  by (induction k arbitrary: u) (auto simp add: hex_value_def)

lemma format_08X_unsigned:
  assumes "0 \<le> k" "k < 2 ^ 32"
  shows "length (format_08X k) = 8"
    and "set (format_08X k) \<subseteq> upper_hex_chars"
    and "hex_digits 0 False (format_08X k) = Inr k"
proof -
  let ?h = "hex_upper (nat k)"
  have f: "format_08X k = replicate (8 - length ?h) CHR ''0'' @ ?h"
    using assms by (simp add: format_08X_def)
  have "nat k < 16 ^ 8" using assms by simp
  then have len: "length ?h \<le> 8" by (intro hex_upper_length) simp_all
  then show "length (format_08X k) = 8" by (simp add: f)
  have z: "CHR ''0'' \<in> upper_hex_chars" by (simp add: upper_hex_chars_def)
  show "set (format_08X k) \<subseteq> upper_hex_chars"
    using hex_upper_chars [of "nat k"] z by (auto simp add: f)
  have "hex_digits 0 False (format_08X k) = hex_digits 0 False (?h @ [])"
    using hex_digits_zeros [of ?h False "8 - length ?h"] hex_upper_nonempty [of "nat k"]
    by (simp add: f)
  also have "\<dots> = Inr k"
    using assms by (simp only: hex_digits_hex_upper) simp
  finally show "hex_digits 0 False (format_08X k) = Inr k" .
qed

lemma int16_upper_hex:
  assumes "length s = 8" "set s \<subseteq> upper_hex_chars"
  shows "int16 s = hex_digits 0 False s"
proof -
  obtain c d rest where s: "s = c # d # rest"
    using assms(1) by (cases s; cases "tl s") auto
  have c: "c \<in> upper_hex_chars" and d: "d \<in> upper_hex_chars"
    using assms(2) s by auto
  have "skip_prefix s = s"
    using upper_hex_char_props(5,6) [OF d] by (simp add: skip_prefix_def s)
  then have "unsigned_int16 s = hex_digits 0 False s"
    using upper_hex_char_props(2) [OF c] by (simp add: unsigned_int16_def s del: hex_digits.simps)
  then show ?thesis
    using upper_hex_char_props(3,4) [OF c] by (simp add: int16_def s del: hex_digits.simps)
qed

lemma dropWhile_keep: "xs \<noteq> [] \<Longrightarrow> \<not> P (hd xs) \<Longrightarrow> dropWhile P xs = xs"
  by (cases xs) auto

lemma strip_line:
  assumes "s \<noteq> []" "set s \<subseteq> upper_hex_chars"
  shows "strip (s @ [CHR 0x0A]) = s"
proof -
  have h: "\<not> is_space (hd s)" and l: "\<not> is_space (last s)"
    using assms upper_hex_char_props(1) by (auto simp add: subset_iff)
  have nl: "is_space (CHR 0x0A)" by (simp add: is_space_def)
  have "dropWhile is_space (s @ [CHR 0x0A]) = s @ [CHR 0x0A]"
    using assms(1) h by (intro dropWhile_keep) simp_all
  moreover have "dropWhile is_space (rev (s @ [CHR 0x0A])) = rev s"
    using nl l assms(1) by (simp add: dropWhile_keep hd_rev)
  ultimately show ?thesis by (simp add: strip_def)
qed

lemma universal_newlines_id: "CHR 0x0D \<notin> set s \<Longrightarrow> universal_newlines s = s"
  by (induction s rule: universal_newlines.induct) auto

lemma lines_from_line:
  "CHR 0x0A \<notin> set l \<Longrightarrow>
   lines_from cur (l @ CHR 0x0A # rest) = (cur @ l @ [CHR 0x0A]) # lines_from [] rest"
  by (induction l arbitrary: cur) auto

lemma and_low32: "(k :: int) AND 0xFFFFFFFF = k mod 2 ^ 32"
proof -
  have "(0xFFFFFFFF :: int) = mask 32" by (simp add: mask_eq_exp_minus_1)
  then show ?thesis by (simp only: take_bit_eq_mask [symmetric] take_bit_eq_mod)
qed

lemma format_line:
  "length (format_08X (k AND 0xFFFFFFFF)) = 8"
  "set (format_08X (k AND 0xFFFFFFFF)) \<subseteq> upper_hex_chars"
  "hex_digits 0 False (format_08X (k AND 0xFFFFFFFF)) = Inr (k mod 2 ^ 32)"
  using format_08X_unsigned [of "k mod 2 ^ 32"] by (simp_all add: and_low32)

lemma write_mem_file_no_cr: "CHR 0x0D \<notin> set (write_mem_file data)"
  using format_line(2) upper_hex_char_props(8)
  by (auto simp add: write_mem_file_def subset_iff)

lemma lines_of_written:
  "lines_from [] (write_mem_file data)
   = map (\<lambda>sample. format_08X (sample AND 0xFFFFFFFF) @ [CHR 0x0A]) data"
proof (induction data)
  case Nil
  then show ?case by (simp add: write_mem_file_def)
next
  case (Cons x xs)
  have "CHR 0x0A \<notin> set (format_08X (x AND 0xFFFFFFFF))"
    using format_line(2) [of x] upper_hex_char_props(7) by (auto simp add: subset_iff)
  then show ?case
    using Cons lines_from_line [of "format_08X (x AND 0xFFFFFFFF)" "[]" "write_mem_file xs"]
    by (simp add: write_mem_file_def)
qed

lemma file_lines_written:
  "file_lines (write_mem_file data)
   = map (\<lambda>sample. format_08X (sample AND 0xFFFFFFFF) @ [CHR 0x0A]) data"
  by (simp add: file_lines_def universal_newlines_id [OF write_mem_file_no_cr] lines_of_written)

lemma resign:
  fixes k :: int
  assumes "- (2 ^ 31) \<le> k" "k < 2 ^ 31"
  shows "(if (k mod 2 ^ 32) AND 0x80000000 \<noteq> 0 then k mod 2 ^ 32 - 0x100000000 else k mod 2 ^ 32) = k"
proof -
  have p: "(0x80000000 :: int) = 2 ^ 31" by simp
  show ?thesis
  proof (cases "k < 0")
    case True
    have "(k + 2 ^ 32) mod 2 ^ 32 = k + 2 ^ 32"
      using True assms by (intro mod_pos_pos_trivial) simp_all
    then have m: "k mod 2 ^ 32 = k + 2 ^ 32"
      by (simp only: mod_add_self2)
    have "(k + 2 ^ 32) div 2 ^ 31 = 1" using True assms by simp
    then have "bit (k + 2 ^ 32) 31" by (simp add: bit_int_def)
    then have "(k + 2 ^ 32) AND 2 ^ 31 \<noteq> 0" by (simp only: and_exp_eq_0_iff_not_bit) simp
    then show ?thesis unfolding m by simp
  next
    case False
    then have m: "k mod 2 ^ 32 = k" using assms by simp
    have "k div 2 ^ 31 = 0" using False assms by simp
    then have "\<not> bit k 31" by (simp add: bit_int_def)
    then have "k AND 2 ^ 31 = 0" by (simp only: and_exp_eq_0_iff_not_bit) simp
    then show ?thesis unfolding m by simp
  qed
qed

lemma load_lines_written:
  assumes "\<forall>k \<in> set samples. - (2 ^ 31) \<le> k \<and> k < 2 ^ 31"
  shows "load_lines data (map (\<lambda>sample. format_08X (sample AND 0xFFFFFFFF) @ [CHR 0x0A]) samples)
         = Inr (data @ samples)"
  using assms
proof (induction samples arbitrary: data)
  case Nil
  then show ?case by simp
next
  case (Cons x xs)
  let ?f = "format_08X (x AND 0xFFFFFFFF)"
  have ne: "?f \<noteq> []" using format_line(1) [of x] by auto
  have st: "strip (?f @ [CHR 0x0A]) = ?f"
    using strip_line [OF ne format_line(2)] .
  have p: "int16 ?f = Inr (x mod 2 ^ 32)"
    using int16_upper_hex [OF format_line(1,2), of x] format_line(3) [of x] by simp
  have r: "(if (x mod 2 ^ 32) AND 0x80000000 \<noteq> 0 then x mod 2 ^ 32 - 0x100000000 else x mod 2 ^ 32) = x"
    using Cons.prems by (intro resign) simp_all
  have "load_lines data ((?f @ [CHR 0x0A]) # map (\<lambda>sample. format_08X (sample AND 0xFFFFFFFF) @ [CHR 0x0A]) xs)
        = load_lines (data @ [x]) (map (\<lambda>sample. format_08X (sample AND 0xFFFFFFFF) @ [CHR 0x0A]) xs)"
    using ne by (simp only: load_lines.simps Let_def st p sum.case r if_True) simp
  then show ?case
    using Cons.IH [of "data @ [x]"] Cons.prems by simp
qed

lemma pattern_kept: "to_fixed (to_float k) mod 2 ^ 32 = k mod 2 ^ 32"
proof -
  have "(k - 2 ^ 32) mod 2 ^ 32 = k mod (2 ^ 32 :: int)"
    by (metis mod_diff_right_eq mod_self diff_zero)
  then show ?thesis by (simp add: to_fixed_to_float)
qed

text \<open>
  Claim C9. For samples in the signed 32-bit range, the writer puts one line per
  sample, the 8 upper-case hexadecimal digits of the sample's unsigned 32-bit pattern,
  and the reader's loop (parse the line in base 16, reinterpret as two's complement)
  fills \<open>data\<close> with exactly the samples written. \<open>load_eeg_mem_file\<close> then
  returns \<open>to_float\<close> of each of them, a float from which \<open>to_fixed\<close> gives
  back the sample's 32-bit pattern.
\<close>

theorem sample_file_round_trip:
  assumes "\<forall>k \<in> set samples. - (2 ^ 31) \<le> k \<and> k < 2 ^ 31"
  shows "load_eeg_mem_data (write_mem_file samples) = Inr samples
     \<and> file_lines (write_mem_file samples)
         = map (\<lambda>sample. format_08X (sample mod 2 ^ 32) @ [CHR 0x0A]) samples
     \<and> (\<forall>k \<in> set samples. length (format_08X (k mod 2 ^ 32)) = 8
           \<and> set (format_08X (k mod 2 ^ 32)) \<subseteq> set ''0123456789ABCDEF'')
     \<and> load_eeg_mem_file (write_mem_file samples) = Inr (map to_float samples)
     \<and> map (\<lambda>x. to_fixed x mod 2 ^ 32) (map to_float samples)
         = map (\<lambda>k. k mod 2 ^ 32) samples"
proof -
  have a: "load_eeg_mem_data (write_mem_file samples) = Inr samples"
    using load_lines_written [OF assms, of "[]"]
    by (simp add: load_eeg_mem_data_def file_lines_written)
  have b: "file_lines (write_mem_file samples)
         = map (\<lambda>sample. format_08X (sample mod 2 ^ 32) @ [CHR 0x0A]) samples"
    by (simp add: file_lines_written and_low32)
  have c: "\<forall>k \<in> set samples. length (format_08X (k mod 2 ^ 32)) = 8
           \<and> set (format_08X (k mod 2 ^ 32)) \<subseteq> set ''0123456789ABCDEF''"
    using format_line(1,2) by (simp add: and_low32 upper_hex_chars_def)
  have d: "map (\<lambda>x. to_fixed x mod 2 ^ 32) (map to_float samples)
         = map (\<lambda>k. k mod 2 ^ 32) samples"
    using pattern_kept by (simp add: comp_def)
  have e: "load_eeg_mem_file (write_mem_file samples) = Inr (map to_float samples)"
    using a by (simp add: load_eeg_mem_file_def)
  show ?thesis
    using a b c d e by blast
qed

theorem sample_file_round_trip_witness:
  "- (2 ^ 31) \<le> (- 0x80000000 :: int) \<and> (0x7FFFFFFF :: int) < 2 ^ 31
   \<and> write_mem_file [1, - 1, 0x7FFFFFFF, - 0x80000000]
       = ''00000001\<newline>FFFFFFFF\<newline>7FFFFFFF\<newline>80000000\<newline>''
   \<and> load_eeg_mem_data ''00000001\<newline>FFFFFFFF\<newline>7FFFFFFF\<newline>80000000\<newline>''
       = Inr [1, - 1, 0x7FFFFFFF, - 0x80000000]"
proof -
  have w: "write_mem_file [1, - 1, 0x7FFFFFFF, - 0x80000000]
       = ''00000001\<newline>FFFFFFFF\<newline>7FFFFFFF\<newline>80000000\<newline>''"
    by code_simp
  have h: "\<forall>k \<in> set [1, - 1, 0x7FFFFFFF, - 0x80000000 :: int]. - (2 ^ 31) \<le> k \<and> k < 2 ^ 31"
    by simp
  show ?thesis
    using sample_file_round_trip [OF h] w by simp
qed

section \<open>Round trip through \<open>to_float\<close>\<close>

lemma round_trip_non_negative:
  assumes "0 \<le> v" "v < 2 ^ 31"
  shows "to_fixed (to_float v) = v"
proof -
  have "v div 2 ^ 31 = 0" using assms by simp
  then have "\<not> bit v 31" by (simp add: bit_int_def)
  then have "v AND 2 ^ 31 = 0" by (simp only: and_exp_eq_0_iff_not_bit) simp
  then show ?thesis by (simp add: to_fixed_to_float)
qed

lemma round_trip_negative:
  assumes "- (2 ^ 31) \<le> v" "v < 0"
  shows "to_fixed (to_float v) = v - 2 ^ 32"
  using sign_bit_of_negative [OF assms] by (simp add: to_fixed_to_float)

text \<open>
  Claim C4 at the raw value \<open>- 1\<close>, passed as a signed integer the way the
  constructor and the file reader pass raw values: \<open>to_float\<close> gives
  \<open>- 4294967297 / 65536\<close> instead of \<open>- 1 / 65536\<close>, and the way back gives
  \<open>- 4294967297\<close>, outside the 32-bit range, instead of \<open>- 1\<close>.
\<close>

theorem round_trip_fails_at_minus_one:
  "to_float (- 1) = - 4294967297 / 65536
   \<and> to_fixed (to_float (- 1)) = - 4294967297
   \<and> to_fixed (to_float (- 1)) \<noteq> - 1"
  by (simp add: to_fixed_to_float) (simp add: to_float_def)

section \<open>Double-precision floats: properties\<close>

lemma bitlen_pos: "0 < n \<Longrightarrow> 1 \<le> bitlen n"
  by (simp add: bitlen_alt_def)

lemma powi_nat: "0 \<le> k \<Longrightarrow> (2 :: real) powi k = 2 ^ nat k"
  by (simp add: power_int_def)

lemma powi_neg_nat: "0 \<le> k \<Longrightarrow> (2 :: real) powi (- k) = 1 / 2 ^ nat k"
  by (cases "k = 0") (simp_all add: power_int_def inverse_eq_divide power_one_over)

lemma binade_large:
  assumes "1 \<le> \<bar>x\<bar>"
  shows "2 powi binade x \<le> \<bar>x\<bar> \<and> \<bar>x\<bar> < 2 powi (binade x + 1)"
proof -
  let ?n = "\<lfloor>\<bar>x\<bar>\<rfloor>"
  have n: "0 < ?n" using assms by linarith
  have b1: "1 \<le> bitlen ?n" using n by (rule bitlen_pos)
  have lo: "(2 :: int) ^ nat (bitlen ?n - 1) \<le> ?n" and hi: "?n < 2 ^ nat (bitlen ?n)"
    using bitlen_bounds [OF n] by simp_all
  have l: "2 ^ nat (bitlen ?n - 1) \<le> \<bar>x\<bar>"
    using lo le_floor_iff [of "2 ^ nat (bitlen ?n - 1)" "\<bar>x\<bar>"] by simp
  have h: "\<bar>x\<bar> < 2 ^ nat (bitlen ?n)"
    using hi floor_less_iff [of "\<bar>x\<bar>" "2 ^ nat (bitlen ?n)"] by simp
  have b: "binade x = bitlen ?n - 1" using assms by (simp add: binade_def)
  have p1: "(2 :: real) powi (bitlen ?n - 1) = 2 ^ nat (bitlen ?n - 1)"
    using b1 by (intro powi_nat) simp
  have p2: "(2 :: real) powi (bitlen ?n - 1 + 1) = 2 ^ nat (bitlen ?n)"
    using b1 powi_nat [of "bitlen ?n"] by simp
  show ?thesis
    unfolding b p1 p2 using l h by simp
qed

lemma binade_small:
  assumes "x \<noteq> 0" "\<bar>x\<bar> < 1"
  shows "2 powi binade x \<le> \<bar>x\<bar> \<and> \<bar>x\<bar> < 2 powi (binade x + 1)"
proof -
  let ?y = "1 / \<bar>x\<bar>"
  let ?c = "\<lceil>?y\<rceil>"
  have xp: "0 < \<bar>x\<bar>" using assms by simp
  have y1: "1 < ?y" using xp assms(2) by simp
  have cpos: "0 < ?c - 1" using y1 less_ceiling_iff [of 1 ?y] by simp
  let ?L = "bitlen (?c - 1)"
  have L1: "1 \<le> ?L" using cpos by (rule bitlen_pos)
  have lo: "(2 :: int) ^ nat (?L - 1) \<le> ?c - 1" and hi: "?c - 1 < 2 ^ nat ?L"
    using bitlen_bounds [OF cpos] by simp_all
  have "?c \<le> 2 ^ nat ?L" using hi by simp
  then have yle: "?y \<le> 2 ^ nat ?L"
    using ceiling_le_iff [of ?y "2 ^ nat ?L"] by simp
  have "2 ^ nat (?L - 1) < ?c" using lo by simp
  then have ygt: "2 ^ nat (?L - 1) < ?y"
    using less_ceiling_iff [of "2 ^ nat (?L - 1)" ?y] by simp
  have l: "1 / 2 ^ nat ?L \<le> \<bar>x\<bar>"
  proof -
    have "1 \<le> \<bar>x\<bar> * 2 ^ nat ?L"
      using yle xp by (simp add: pos_divide_le_eq mult.commute)
    then show ?thesis by (simp add: pos_divide_le_eq)
  qed
  have h: "\<bar>x\<bar> < 1 / 2 ^ nat (?L - 1)"
  proof -
    have "\<bar>x\<bar> * 2 ^ nat (?L - 1) < 1"
      using ygt xp by (simp add: pos_less_divide_eq mult.commute)
    then show ?thesis by (simp add: pos_less_divide_eq)
  qed
  have b: "binade x = - ?L" using assms by (simp add: binade_def)
  have p1: "(2 :: real) powi (- ?L) = 1 / 2 ^ nat ?L"
    using L1 by (intro powi_neg_nat) simp
  have p2: "(2 :: real) powi (- ?L + 1) = 1 / 2 ^ nat (?L - 1)"
    using L1 powi_neg_nat [of "?L - 1"] by simp
  show ?thesis
    unfolding b p1 p2 using l h by simp
qed

lemma binade_bounds:
  assumes "x \<noteq> 0"
  shows "2 powi binade x \<le> \<bar>x\<bar>" and "\<bar>x\<bar> < 2 powi (binade x + 1)"
  using binade_large [of x] binade_small [of x] assms by (cases "1 \<le> \<bar>x\<bar>"; simp)+

lemma round_double_exact:
  assumes x: "x = of_int m * 2 powi e" and m: "\<bar>m\<bar> < 2 ^ 53" and e: "- 1074 \<le> e"
    and f: "\<bar>x\<bar> < 2 ^ 1024"
  shows "round_double x = Finite x"
proof (cases "x = 0")
  case True
  then show ?thesis by (simp add: round_double_def)
next
  case False
  define u where "u = max (binade x - 52) (- 1074)"
  have "\<bar>x\<bar> = of_int \<bar>m\<bar> * 2 powi e"
    by (simp add: x abs_mult)
  also have "\<dots> < 2 ^ 53 * 2 powi e"
  proof -
    have "real_of_int \<bar>m\<bar> < real_of_int (2 ^ 53)" using m by (simp only: of_int_less_iff)
    then show ?thesis by simp
  qed
  also have "\<dots> = 2 powi (53 + e)"
    by (simp add: power_int_add)
  finally have "2 powi binade x < (2 :: real) powi (53 + e)"
    using binade_bounds(1) [OF False] by simp
  then have "binade x < 53 + e"
    by (metis power_int_strict_increasing linorder_not_less order_less_le one_less_numeral_iff
        semiring_norm(76) order_less_asym)
  then have ue: "u \<le> e" using e by (simp add: u_def)
  define d where "d = nat (e - u)"
  have ed: "e = u + int d" using ue by (simp add: d_def)
  have up: "(2 :: real) powi u \<noteq> 0" by simp
  have pe: "(2 :: real) powi e = 2 powi u * 2 ^ d"
    by (subst ed) (simp add: power_int_add)
  have q: "x / 2 powi u = of_int (m * 2 ^ d)"
    unfolding x pe using up by simp
  have "np_round (x / 2 powi u) = m * 2 ^ d"
    unfolding q by (rule np_round_of_int)
  then have r: "of_int (np_round (x / 2 powi u)) * 2 powi u = x"
    unfolding x pe by simp
  show ?thesis
    using False f unfolding round_double_def Let_def u_def [symmetric] r by simp
qed

lemma round_double_dyadic:
  assumes "\<bar>m\<bar> < 2 ^ 53" "k \<le> 1074"
  shows "round_double (of_int m / 2 ^ k) = Finite (of_int m / 2 ^ k)"
proof -
  have p: "(2 :: real) powi (- int k) = 1 / 2 ^ k"
    using powi_neg_nat [of "int k"] by simp
  have x: "real_of_int m / 2 ^ k = of_int m * 2 powi (- int k)"
    by (simp add: p)
  have "\<bar>real_of_int m\<bar> * 1 \<le> \<bar>real_of_int m\<bar> * 2 ^ k"
    by (intro mult_left_mono) simp_all
  then have "\<bar>real_of_int m / 2 ^ k\<bar> \<le> \<bar>real_of_int m\<bar>"
    by (simp add: abs_divide pos_divide_le_eq)
  moreover have "\<bar>real_of_int m\<bar> < 2 ^ 53"
    using assms(1) by (metis of_int_abs of_int_less_iff of_int_numeral of_int_power)
  moreover have "(2 :: real) ^ 53 < 2 ^ 1024" by simp
  ultimately have f: "\<bar>real_of_int m / 2 ^ k\<bar> < 2 ^ 1024" by linarith
  show ?thesis
    using assms(2) by (intro round_double_exact [OF x assms(1) _ f]) simp
qed

section \<open>Filter: properties\<close>

lemma upt4: "[0..<4] = [0, 1, 2, 3]"
  by (simp add: upt_rec)

lemma coeff_exact:
  "round_double (3435 / 65536) = Finite (3435 / 65536)"
  "round_double (- (2147504851 / 32768)) = Finite (- (2147504851 / 32768))"
  "round_double 1 = Finite 1"
  "round_double (- (1073781801 / 16384)) = Finite (- (1073781801 / 16384))"
  "round_double (89129 / 32768) = Finite (89129 / 32768)"
  "round_double (- (4295078707 / 65536)) = Finite (- (4295078707 / 65536))"
  "round_double (15729 / 65536) = Finite (15729 / 65536)"
  using round_double_dyadic [of 3435 16] round_double_dyadic [of "- 2147504851" 15]
    round_double_dyadic [of 1 0] round_double_dyadic [of "- 1073781801" 14]
    round_double_dyadic [of 89129 15] round_double_dyadic [of "- 4295078707" 16]
    round_double_dyadic [of 15729 16]
  by simp_all

lemma round_double_zero: "round_double 0 = Finite 0"
  by (simp add: round_double_def)

lemma b_float_value:
  "b_float = [3435 / 65536, 0, - (2147504851 / 32768), 0, 3435 / 65536]"
  by (simp add: b_float_def b_coeff_def to_float_def)

lemma a_float_value:
  "a_float = [1, - (1073781801 / 16384), 89129 / 32768, - (4295078707 / 65536), 15729 / 65536]"
  by (simp add: a_float_def a_coeff_def to_float_def)

lemma normalised_b:
  "normalise b_float (a_float ! 0)
   = [Finite (3435 / 65536), Finite 0, Finite (- (2147504851 / 32768)), Finite 0,
      Finite (3435 / 65536)]"
  by (simp add: normalise_def b_float_value a_float_value coeff_exact round_double_zero)

lemma normalised_a:
  "normalise a_float (a_float ! 0)
   = [Finite 1, Finite (- (1073781801 / 16384)), Finite (89129 / 32768),
      Finite (- (4295078707 / 65536)), Finite (15729 / 65536)]"
  by (simp add: normalise_def a_float_value coeff_exact)

lemma lfilter_loop_length [simp]: "length (lfilter_loop b a z xs) = length xs"
  by (induction xs arbitrary: z) (simp_all add: Let_def)




lemma filter_signal_loop:
  "filter_signal data
   = lfilter_loop (normalise b_float (a_float ! 0)) (normalise a_float (a_float ! 0))
       [Finite 0, Finite 0, Finite 0, Finite 0] data"
  by (simp add: filter_signal_def Let_def normalised_a numeral_eq_Suc)


lemma delay_zero:
  "df2t_delay [Finite b0, Finite b1, Finite b2, Finite b3, Finite b4]
     [Finite a0, Finite a1, Finite a2, Finite a3, Finite a4]
     [Finite 0, Finite 0, Finite 0, Finite 0] (Finite 0) (Finite 0)
   = [Finite 0, Finite 0, Finite 0, Finite 0]"
  by (simp add: df2t_delay_def upt4 round_double_zero)

lemma filter_signal_zero:
  "filter_signal (replicate n (Finite 0)) = replicate n (Finite 0)"
  unfolding filter_signal_loop normalised_b normalised_a
  by (induction n) (simp_all add: Let_def delay_zero round_double_zero)

lemma unit_step_outputs:
  "\<exists>rest. filter_signal (Finite 1 # Finite 1 # xs)
      = Finite (3435 / 65536) # Finite (3688496765475 / 1073741824) # rest
     \<and> length rest = length xs"
proof -
  have e: "round_double (3688440486435 / 1073741824) = Finite (3688440486435 / 1073741824)"
    "round_double (- (3688440486435 / 1073741824)) = Finite (- (3688440486435 / 1073741824))"
    "round_double (3688496765475 / 1073741824) = Finite (3688496765475 / 1073741824)"
    using round_double_dyadic [of 3688440486435 30] round_double_dyadic [of "- 3688440486435" 30]
      round_double_dyadic [of 3688496765475 30]
    by simp_all
  let ?b = "normalise b_float (a_float ! 0)" and ?a = "normalise a_float (a_float ! 0)"
  let ?z0 = "[Finite 0, Finite 0, Finite 0, Finite 0]"
  let ?y0 = "Finite (3435 / 65536)"
  have y0: "dadd (?z0 ! 0) (dmul (?b ! 0) (Finite 1)) = ?y0"
    by (simp add: normalised_b coeff_exact)
  let ?z1 = "df2t_delay ?b ?a ?z0 (Finite 1) ?y0"
  have z1: "?z1 ! 0 = Finite (3688440486435 / 1073741824)"
    by (simp add: df2t_delay_def upt4 normalised_b normalised_a round_double_zero e)
  have y1: "dadd (?z1 ! 0) (dmul (?b ! 0) (Finite 1)) = Finite (3688496765475 / 1073741824)"
    unfolding z1 by (simp add: normalised_b coeff_exact e)
  have "filter_signal (Finite 1 # Finite 1 # xs)
        = ?y0 # Finite (3688496765475 / 1073741824)
          # lfilter_loop ?b ?a (df2t_delay ?b ?a ?z1 (Finite 1) (Finite (3688496765475 / 1073741824))) xs"
    unfolding filter_signal_loop lfilter_loop.simps Let_def y0 y1 ..
  then show ?thesis by simp
qed






section \<open>Pipeline: properties\<close>

subsection \<open>Detector on doubles\<close>

lemma detect_fold64:
  "fold (detect_step64 data) js (flags, rc) = (flags', rc')
   \<Longrightarrow> length flags' = length flags \<and> (\<forall>k. k \<notin> set js \<longrightarrow> flags' ! k = flags ! k)"
proof (induction js arbitrary: flags rc)
  case Nil
  then show ?case by simp
next
  case (Cons j js)
  obtain f1 r1 where st: "detect_step64 data j (flags, rc) = (f1, r1)"
    by (cases "detect_step64 data j (flags, rc)")
  have a: "length f1 = length flags" and b: "\<forall>k. k \<noteq> j \<longrightarrow> f1 ! k = flags ! k"
    using st by (auto simp add: detect_step64_def split: if_splits)
  have "fold (detect_step64 data) js (f1, r1) = (flags', rc')"
    using Cons.prems st by simp
  from Cons.IH [OF this] a b show ?case by auto
qed

lemma length_detect_spikes64: "length (detect_spikes64 data) = length data"
proof -
  obtain f r where "detect_loop64 data = (f, r)" by (cases "detect_loop64 data")
  then show ?thesis
    using detect_fold64 [of data "[window_size..<length data]" "replicate (length data) False" 0 f r]
    by (simp add: detect_spikes64_def detect_loop64_def)
qed

lemma detect_spikes64_warm_up:
  assumes "i < window_size" "i < length data"
  shows "\<not> detect_spikes64 data ! i"
proof -
  obtain f r where fr: "detect_loop64 data = (f, r)" by (cases "detect_loop64 data")
  have "f ! i = replicate (length data) False ! i"
    using detect_fold64 [of data "[window_size..<length data]" "replicate (length data) False" 0 f r]
      fr assms(1)
    by (simp add: detect_loop64_def)
  then show ?thesis
    using assms(2) fr by (simp add: detect_spikes64_def)
qed

lemma detect_step64_finite:
  "j < length data \<Longrightarrow> detect_step64 (map Finite data) j st = detect_step data j st"
  by (cases st) (simp add: detect_step64_def detect_step_def)

lemma detect_fold64_finite:
  "\<forall>j \<in> set js. j < length data
   \<Longrightarrow> fold (detect_step64 (map Finite data)) js st = fold (detect_step data) js st"
  by (induction js arbitrary: st) (simp_all add: detect_step64_finite)

text \<open>On finite samples the detector on doubles is \<open>detect_spikes\<close>.\<close>

lemma detect_spikes64_finite: "detect_spikes64 (map Finite data) = detect_spikes data"
  by (simp add: detect_spikes64_def detect_loop64_def detect_spikes_def detect_loop_def
      detect_fold64_finite)

lemma detect_fold64_quiet:
  "\<forall>j \<in> set js. \<not> abs_above (data ! j) spike_threshold
   \<Longrightarrow> fst (fold (detect_step64 data) js (flags, rc)) = flags"
proof (induction js arbitrary: rc)
  case Nil
  then show ?case by simp
next
  case (Cons j js)
  have "\<exists>r1. detect_step64 data j (flags, rc) = (flags, r1)"
    using Cons.prems by (simp add: detect_step64_def)
  then show ?case using Cons by auto
qed

lemma detect_spikes64_zero:
  "detect_spikes64 (replicate n (Finite 0)) = replicate n False"
  unfolding detect_spikes64_def detect_loop64_def
  by (subst detect_fold64_quiet) (simp_all add: spike_threshold_def to_float_def)

subsection \<open>Encoder on doubles\<close>

lemma compress_step64_ok:
  "i < length flags \<Longrightarrow> \<exists>s'. compress_step64 flags s (i, val) = Inr s'"
  by (simp add: compress_step64_def Let_def)

lemma compress_loop64_ok:
  "i + length xs \<le> length flags \<Longrightarrow> \<exists>s'. compress_loop64 flags s (enumerate i xs) = Inr s'"
proof (induction xs arbitrary: i s)
  case Nil
  then show ?case by simp
next
  case (Cons x xs)
  then obtain s1 where "compress_step64 flags s (i, x) = Inr s1"
    using compress_step64_ok [of i flags s x] by auto
  then show ?case using Cons.IH [of "Suc i" s1] Cons.prems by simp
qed

lemma compress_loop64_seq:
  "compress_loop64 flags s ps = Inr s' \<Longrightarrow> compress_loop64 flags s' qs = r
   \<Longrightarrow> compress_loop64 flags s (ps @ qs) = r"
  by (induction ps arbitrary: s) (auto split: sum.splits)

lemma run_extends64:
  assumes "in_run64 s" "abs_below (dsub v (prev_value64 s)) rle_threshold"
    and "run_count64 s + n < max_run_length"
    and "\<forall>k < n. i + k < length flags \<and> \<not> flags ! (i + k)"
  shows "compress_loop64 flags s (enumerate i (replicate n v))
         = Inr (s\<lparr>run_count64 := run_count64 s + n\<rparr>)"
  using assms
proof (induction n arbitrary: s i)
  case 0
  then show ?case by simp
next
  case (Suc n)
  let ?s1 = "s\<lparr>run_count64 := run_count64 s + 1\<rparr>"
  have i: "i < length flags" "\<not> flags ! i"
    using Suc.prems(4) by (metis add.right_neutral zero_less_Suc)+
  have step: "compress_step64 flags s (i, v) = Inr ?s1"
    using Suc.prems(1-3) i by (simp add: compress_step64_def Let_def)
  have rest: "\<forall>k < n. Suc i + k < length flags \<and> \<not> flags ! (Suc i + k)"
    using Suc.prems(4) by (metis add_Suc_shift Suc_less_eq)
  have "compress_loop64 flags ?s1 (enumerate (Suc i) (replicate n v))
        = Inr (?s1\<lparr>run_count64 := run_count64 ?s1 + n\<rparr>)"
    using Suc.prems(1-3) by (intro Suc.IH rest) simp_all
  then show ?case
    by (simp add: step)
qed

lemma rle_threshold_pos: "0 < rle_threshold"
  by (simp add: rle_threshold_def to_float_def)

lemma constant_block64:
  assumes "round_double v = Finite v" "\<bar>v\<bar> < rle_threshold"
  shows "compress_signal64 (replicate 300 (Finite v)) (replicate 300 False)
         = Inr ([Tuple64 255 (Finite v), Tuple64 45 (Finite v)], [1, 1])"
proof -
  let ?flags = "replicate 300 False"
  let ?v = "Finite v"
  have d0: "dsub ?v (Finite 0) = ?v" using assms(1) by simp
  have dv: "dsub ?v ?v = Finite 0" by (simp add: round_double_zero)
  have split: "replicate 300 ?v = [?v] @ replicate 253 ?v @ [?v, ?v] @ replicate 44 ?v"
    by (simp add: replicate_add [symmetric] flip: replicate_Suc replicate_append_same)
  have en: "enumerate 0 (replicate 300 ?v)
            = enumerate 0 [?v] @ enumerate 1 (replicate 253 ?v) @ enumerate 254 [?v, ?v]
              @ enumerate 256 (replicate 44 ?v)"
    unfolding split by (simp add: enumerate_append_eq)
  let ?s1 = "enc_init64\<lparr>run_value64 := ?v, run_count64 := 1, in_run64 := True\<rparr>"
  have a: "compress_loop64 ?flags enc_init64 (enumerate 0 [?v]) = Inr ?s1"
    using assms(2) d0
    by (simp add: compress_step64_def Let_def enc_init64_def max_run_length_def)
  have b: "compress_loop64 ?flags ?s1 (enumerate 1 (replicate 253 ?v))
           = Inr (?s1\<lparr>run_count64 := run_count64 ?s1 + 253\<rparr>)"
    using assms(2) d0 by (intro run_extends64) (simp_all add: enc_init64_def max_run_length_def)
  let ?s2 = "?s1\<lparr>run_count64 := run_count64 ?s1 + 253\<rparr>"
  let ?s3 = "\<lparr>compressed64 = [Tuple64 255 ?v], packet_types64 = [1], prev_value64 = ?v,
     run_count64 = 1, run_value64 = ?v, in_run64 = True\<rparr>"
  have c: "compress_loop64 ?flags ?s2 (enumerate 254 [?v, ?v]) = Inr ?s3"
    using rle_threshold_pos assms(2) d0 dv
    by (simp add: compress_step64_def Let_def enc_init64_def max_run_length_def emit_run64_def)
  have d: "compress_loop64 ?flags ?s3 (enumerate 256 (replicate 44 ?v))
           = Inr (?s3\<lparr>run_count64 := run_count64 ?s3 + 44\<rparr>)"
    using rle_threshold_pos dv by (intro run_extends64) (simp_all add: max_run_length_def)
  have "compress_loop64 ?flags enc_init64 (enumerate 0 (replicate 300 ?v))
        = Inr (?s3\<lparr>run_count64 := run_count64 ?s3 + 44\<rparr>)"
    unfolding en
    by (rule compress_loop64_seq [OF a], rule compress_loop64_seq [OF b],
        rule compress_loop64_seq [OF c], rule d)
  then show ?thesis
    by (simp add: compress_signal64_def final_run64_def)
qed

text \<open>
  Claim C3, as amended. On 300 samples that are all zero the pipeline returns exactly
  two packets, the run-length tuples \<open>(255, 0)\<close> and \<open>(45, 0)\<close>, and no other
  packet. For the encoder alone, 300 equal filtered values \<open>v\<close> below
  \<open>rle_threshold\<close> in magnitude, none flagged, give exactly \<open>(255, v)\<close> and
  \<open>(45, v)\<close>.
\<close>

theorem constant_input_300:
  "process (replicate 300 (Finite 0))
   = Inr \<lparr>res_filtered = replicate 300 (Finite 0), res_spikes = replicate 300 False,
          res_compressed = [Tuple64 255 (Finite 0), Tuple64 45 (Finite 0)],
          res_packet_types = [1, 1],
          res_stats = \<lparr>input_samples = 300, output_packets = 2,
            compression_ratio = dmul (round_double (2 / 300)) (Finite 100),
            spike_count = 0\<rparr>\<rparr>
   \<and> (round_double v = Finite v \<and> \<bar>v\<bar> < rle_threshold \<longrightarrow>
        compress_signal64 (replicate 300 (Finite v)) (replicate 300 False)
        = Inr ([Tuple64 255 (Finite v), Tuple64 45 (Finite v)], [1, 1]))"
proof -
  have "compress_signal64 (replicate 300 (Finite 0)) (replicate 300 False)
        = Inr ([Tuple64 255 (Finite 0), Tuple64 45 (Finite 0)], [1, 1])"
    using rle_threshold_pos by (intro constant_block64) (simp_all add: round_double_zero)
  then have "process (replicate 300 (Finite 0))
   = Inr \<lparr>res_filtered = replicate 300 (Finite 0), res_spikes = replicate 300 False,
          res_compressed = [Tuple64 255 (Finite 0), Tuple64 45 (Finite 0)],
          res_packet_types = [1, 1],
          res_stats = \<lparr>input_samples = 300, output_packets = 2,
            compression_ratio = dmul (round_double (2 / 300)) (Finite 100),
            spike_count = 0\<rparr>\<rparr>"
    by (simp add: process_def filter_signal_zero detect_spikes64_zero Let_def)
  then show ?thesis
    using constant_block64 [of v] by simp
qed

theorem constant_input_300_witness:
  "round_double (1 / 16) = Finite (1 / 16) \<and> \<bar>1 / 16 :: real\<bar> < rle_threshold
   \<and> compress_signal64 (replicate 300 (Finite (1 / 16))) (replicate 300 False)
       = Inr ([Tuple64 255 (Finite (1 / 16)), Tuple64 45 (Finite (1 / 16))], [1, 1])"
proof -
  have e: "round_double (1 / 16) = Finite (1 / 16)"
    using round_double_dyadic [of 1 4] by simp
  show ?thesis
    using e constant_input_300 [of "1 / 16"]
    by (simp add: rle_threshold_def to_float_def)
qed

lemma compress_step64_extends:
  assumes "compress_step64 flags s p = Inr s'"
  shows "\<exists>ps ts. compressed64 s' = compressed64 s @ ps \<and> packet_types64 s' = packet_types64 s @ ts"
  using assms
  by (cases p)
     (auto simp add: compress_step64_def emit_run64_def emit_run_spike64_def Let_def split: if_splits)

lemma compress_loop64_extends:
  "compress_loop64 flags s ps = Inr s'
   \<Longrightarrow> \<exists>es ts. compressed64 s' = compressed64 s @ es \<and> packet_types64 s' = packet_types64 s @ ts"
proof (induction ps arbitrary: s)
  case Nil
  then show ?case by simp
next
  case (Cons p ps)
  from Cons.prems obtain s1 where s1: "compress_step64 flags s p = Inr s1"
    and rest: "compress_loop64 flags s1 ps = Inr s'"
    by (auto split: sum.splits)
  from compress_step64_extends [OF s1] Cons.IH [OF rest] show ?case by auto
qed

lemma final_run64_extends:
  "\<exists>es ts. compressed64 (final_run64 s) = compressed64 s @ es
           \<and> packet_types64 (final_run64 s) = packet_types64 s @ ts"
  by (simp add: final_run64_def)

lemma Suc_numerals: "Suc (Suc 0) = 2" "Suc (Suc (Suc 0)) = 3" "Suc (Suc (Suc (Suc 0))) = 4"
  by simp_all

lemma unit_step_head:
  "\<exists>r. process (Finite 1 # Finite 1 # xs) = Inr r
     \<and> take 2 (res_packet_types r) = [1, 0]
     \<and> take 1 (res_compressed r) = [Tuple64 1 (Finite (3435 / 65536))]"
proof -
  let ?y0 = "Finite (3435 / 65536)"
  let ?y1 = "Finite (3688496765475 / 1073741824)"
  obtain rest where f: "filter_signal (Finite 1 # Finite 1 # xs) = ?y0 # ?y1 # rest"
    using unit_step_outputs [of xs] by auto
  let ?F = "?y0 # ?y1 # rest"
  let ?flags = "detect_spikes64 ?F"
  have len: "length ?flags = length ?F" by (rule length_detect_spikes64)
  have q0: "\<not> ?flags ! 0" and q1: "\<not> ?flags ! 1"
    by (rule detect_spikes64_warm_up; simp add: window_size_def)+
  have l0: "0 < length ?flags" and l1: "1 < length ?flags"
    using len by simp_all
  have e: "round_double (3435 / 65536) = Finite (3435 / 65536)"
    "round_double (3688496765475 / 1073741824) = Finite (3688496765475 / 1073741824)"
    using round_double_dyadic [of 3435 16] round_double_dyadic [of 3688496765475 30] by simp_all
  let ?s2 = "\<lparr>compressed64 = [Tuple64 1 ?y0, Scalar64 ?y1], packet_types64 = [1, 0],
     prev_value64 = ?y1, run_count64 = 0, run_value64 = ?y0, in_run64 = False\<rparr>"
  have two: "compress_loop64 ?flags enc_init64 (enumerate 0 [?y0, ?y1]) = Inr ?s2"
    using q0 q1 l0 l1
    by (simp add: compress_step64_def Let_def enc_init64_def max_run_length_def emit_run64_def
        rle_threshold_def to_float_def e)
  obtain s' where s': "compress_loop64 ?flags ?s2 (enumerate 2 rest) = Inr s'"
    using compress_loop64_ok [of 2 rest ?flags ?s2] len by auto
  have en: "enumerate 0 ?F = enumerate 0 [?y0, ?y1] @ enumerate 2 rest"
    by (simp add: Suc_numerals)
  have all: "compress_loop64 ?flags enc_init64 (enumerate 0 ?F) = Inr s'"
    unfolding en by (rule compress_loop64_seq [OF two s'])
  obtain es ts where ex: "compressed64 s' = [Tuple64 1 ?y0, Scalar64 ?y1] @ es"
      "packet_types64 s' = [1, 0] @ ts"
    using compress_loop64_extends [OF s'] by auto
  obtain es' ts' where ex': "compressed64 (final_run64 s') = compressed64 s' @ es'"
      "packet_types64 (final_run64 s') = packet_types64 s' @ ts'"
    using final_run64_extends [of s'] by auto
  have "compress_signal64 ?F ?flags
        = Inr (compressed64 (final_run64 s'), packet_types64 (final_run64 s'))"
    unfolding compress_signal64_def all by simp
  then show ?thesis
    unfolding process_def f Let_def by (simp add: ex ex')
qed

text \<open>
  Claim C3 as stated fails on 300 samples of value 1: the filter's first two outputs
  are \<open>3435 / 65536\<close> and \<open>3688496765475 / 2 ^ 30\<close>, so the first packet is a run
  of length 1 and the second a delta.
\<close>

theorem unit_input_300_has_delta:
  "map_sum id (take 2 \<circ> res_packet_types) (process (replicate 300 (Finite 1))) = Inr [1, 0]
   \<and> map_sum id (take 1 \<circ> res_compressed) (process (replicate 300 (Finite 1)))
       = Inr [Tuple64 1 (Finite (3435 / 65536))]"
proof -
  have r: "replicate 300 (Finite 1) = Finite 1 # Finite 1 # replicate 298 (Finite 1)"
    by (simp flip: replicate_Suc)
  show ?thesis
    using unit_step_head [of "replicate 298 (Finite 1)"] unfolding r by auto
qed

end
